theory Spec2Isabelle
  imports Main
begin

section \<open>Rectangle\<close>

text \<open>
  \<^verbatim>\<open>function Rectangle(width, height) {
    return { width, height, getArea() { return width * height; } };
  }\<close>
  The returned object has two data fields and one method. The method body mentions the
  parameters \<open>width\<close> and \<open>height\<close> of the enclosing call, not \<open>this.width\<close> and
  \<open>this.height\<close>: it is a closure over the two arguments. The field \<open>getArea\<close> therefore
  holds a function that ignores the object it is called on. The number type is left
  open (any type with a multiplication), since nothing below depends on arithmetic laws.
\<close>

record 'a RectangleObj =
  width :: 'a
  height :: 'a
  getArea :: "unit \<Rightarrow> 'a"

definition Rectangle :: "'a::times \<Rightarrow> 'a \<Rightarrow> 'a RectangleObj" where
  "Rectangle w h = \<lparr>width = w, height = h, getArea = (\<lambda>_. w * h)\<rparr>"


section \<open>The selector builder: one object\<close>

text \<open>
  The two messages thrown by the class are the two error kinds. \<open>TypeError\<close> is what
  JavaScript raises when a property is read from a value that is no object; it is only
  reachable through a reference that points to no builder (see the heap below).
\<close>

datatype error = DuplicateExclusive | OutOfOrder | TypeError

record CssSelectorBuilder =
  previousSelector :: string
  cssArray :: "string list"
  order :: int

text \<open>The constructor.\<close>

definition new_CssSelectorBuilder :: CssSelectorBuilder where
  "new_CssSelectorBuilder = \<lparr>previousSelector = [], cssArray = [], order = - 1\<rparr>"

text \<open>
  \<open>stringify\<close> joins the array with the empty separator, then assigns
  \<open>previousSelector\<close> and \<open>cssArray\<close>. It does not assign \<open>order\<close>.
\<close>

definition stringify :: "CssSelectorBuilder \<Rightarrow> string \<times> CssSelectorBuilder" where
  "stringify b = (concat (cssArray b), b\<lparr>previousSelector := [], cssArray := []\<rparr>)"

text \<open>
  The six appending methods. Every \<open>throw\<close> comes before the first assignment, so an
  error leaves the object as it was: the caller still holds the argument \<open>b\<close>.
\<close>

definition element :: "string \<Rightarrow> CssSelectorBuilder \<Rightarrow> error + CssSelectorBuilder" where
  "element v b =
     (if previousSelector b = ''element'' then Inl DuplicateExclusive
      else if order b > 0 then Inl OutOfOrder
      else Inr (b\<lparr>previousSelector := ''element'', cssArray := cssArray b @ [v], order := 0\<rparr>))"

definition idSel :: "string \<Rightarrow> CssSelectorBuilder \<Rightarrow> error + CssSelectorBuilder" where
  "idSel v b =
     (if previousSelector b = ''id'' then Inl DuplicateExclusive
      else if order b > 1 then Inl OutOfOrder
      else Inr (b\<lparr>previousSelector := ''id'', cssArray := cssArray b @ [''#'' @ v], order := 1\<rparr>))"

definition classSel :: "string \<Rightarrow> CssSelectorBuilder \<Rightarrow> error + CssSelectorBuilder" where
  "classSel v b =
     (if order b > 2 then Inl OutOfOrder
      else Inr (b\<lparr>previousSelector := [], cssArray := cssArray b @ [''.'' @ v], order := 2\<rparr>))"

definition attr :: "string \<Rightarrow> CssSelectorBuilder \<Rightarrow> error + CssSelectorBuilder" where
  "attr v b =
     (if order b > 3 then Inl OutOfOrder
      else Inr (b\<lparr>previousSelector := [], cssArray := cssArray b @ [''['' @ v @ '']''], order := 3\<rparr>))"

definition pseudoClass :: "string \<Rightarrow> CssSelectorBuilder \<Rightarrow> error + CssSelectorBuilder" where
  "pseudoClass v b =
     (if order b > 4 then Inl OutOfOrder
      else Inr (b\<lparr>previousSelector := [], cssArray := cssArray b @ ['':'' @ v], order := 4\<rparr>))"

definition pseudoElement :: "string \<Rightarrow> CssSelectorBuilder \<Rightarrow> error + CssSelectorBuilder" where
  "pseudoElement v b =
     (if previousSelector b = ''pseudoElement'' then Inl DuplicateExclusive
      else Inr (b\<lparr>previousSelector := ''pseudoElement'', cssArray := cssArray b @ [''::'' @ v],
                  order := 5\<rparr>))"

text \<open>
  \<open>combine\<close> reads the arrays of its two arguments and assigns a new array to the
  receiver; \<open>s1\<close> and \<open>s2\<close> are the argument objects as they are when the call starts.
\<close>

definition combine ::
  "CssSelectorBuilder \<Rightarrow> string \<Rightarrow> CssSelectorBuilder \<Rightarrow> CssSelectorBuilder \<Rightarrow> CssSelectorBuilder"
where
  "combine s1 combinator s2 b =
     b\<lparr>cssArray := cssArray b @ cssArray s1 @ ['' '' @ combinator @ '' ''] @ cssArray s2\<rparr>"


subsection \<open>Categories and chains of appends\<close>

datatype category = Element | Id | Class | Attribute | PseudoClass | PseudoElement

text \<open>The rank of a category is the constant its method stores in \<open>order\<close>.\<close>

fun rank :: "category \<Rightarrow> int" where
  "rank Element = 0"
| "rank Id = 1"
| "rank Class = 2"
| "rank Attribute = 3"
| "rank PseudoClass = 4"
| "rank PseudoElement = 5"

text \<open>The rendering of a fragment, as the specification tabulates it.\<close>

fun rendered :: "category \<Rightarrow> string \<Rightarrow> string" where
  "rendered Element v = v"
| "rendered Id v = ''#'' @ v"
| "rendered Class v = ''.'' @ v"
| "rendered Attribute v = ''['' @ v @ '']''"
| "rendered PseudoClass v = '':'' @ v"
| "rendered PseudoElement v = ''::'' @ v"

text \<open>The value each method leaves in \<open>previousSelector\<close>.\<close>

fun marker :: "category \<Rightarrow> string" where
  "marker Element = ''element''"
| "marker Id = ''id''"
| "marker PseudoElement = ''pseudoElement''"
| "marker _ = []"

fun appendFragment :: "category \<Rightarrow> string \<Rightarrow> CssSelectorBuilder \<Rightarrow> error + CssSelectorBuilder" where
  "appendFragment Element = element"
| "appendFragment Id = idSel"
| "appendFragment Class = classSel"
| "appendFragment Attribute = attr"
| "appendFragment PseudoClass = pseudoClass"
| "appendFragment PseudoElement = pseudoElement"

text \<open>
  A fluent chain \<open>b.m1(v1).m2(v2)...\<close>: the calls run in order on the same object and
  the first exception ends the chain.
\<close>

fun appendAll :: "(category \<times> string) list \<Rightarrow> CssSelectorBuilder \<Rightarrow> error + CssSelectorBuilder" where
  "appendAll [] b = Inr b"
| "appendAll (c # cs) b =
     (case appendFragment (fst c) (snd c) b of Inl e \<Rightarrow> Inl e | Inr b' \<Rightarrow> appendAll cs b')"

text \<open>
  A valid fragment sequence, in the words of the specification (its invariants 1 and 2):
  the category ranks never decrease along the sequence, and element, id and
  pseudo-element each occur at most once.
\<close>

definition valid :: "(category \<times> string) list \<Rightarrow> bool" where
  "valid cs \<longleftrightarrow>
     sorted (map (\<lambda>c. rank (fst c)) cs) \<and>
     length (filter (\<lambda>c. fst c = Element) cs) \<le> 1 \<and>
     length (filter (\<lambda>c. fst c = Id) cs) \<le> 1 \<and>
     length (filter (\<lambda>c. fst c = PseudoElement) cs) \<le> 1"

text \<open>Later calls on one object that keep its fragments: appends and combinations.\<close>

datatype operation =
  Append category string
| Combine CssSelectorBuilder string CssSelectorBuilder

fun perform :: "operation \<Rightarrow> CssSelectorBuilder \<Rightarrow> error + CssSelectorBuilder" where
  "perform (Append k v) b = appendFragment k v b"
| "perform (Combine s1 c s2) b = Inr (combine s1 c s2 b)"

fun performAll :: "operation list \<Rightarrow> CssSelectorBuilder \<Rightarrow> error + CssSelectorBuilder" where
  "performAll [] b = Inr b"
| "performAll (x # xs) b =
     (case perform x b of Inl e \<Rightarrow> Inl e | Inr b' \<Rightarrow> performAll xs b')"


section \<open>Objects and references\<close>

text \<open>
  Builders are objects: two variables may hold the same one, and \<open>combine\<close> is handed
  references. The heap is the list of the builders created so far and a reference is an
  index into it. A reference beyond the heap stands for a value that is no builder
  (\<open>undefined\<close>), on which every property read raises \<open>TypeError\<close>.

  Each \<open>cssArray\<close> belongs to one object only: the constructor and \<open>stringify\<close> assign a
  new empty array, \<open>combine\<close> assigns the new array \<open>concat\<close> returns, and \<open>push\<close>
  changes the array of its own object. So the array is kept inside the record.
\<close>

type_synonym ref = nat
type_synonym heap = "CssSelectorBuilder list"

text \<open>Calling one of the six appending methods on a reference; each returns \<open>this\<close>.\<close>

definition invoke ::
  "(CssSelectorBuilder \<Rightarrow> error + CssSelectorBuilder) \<Rightarrow> ref \<Rightarrow> heap \<Rightarrow> error + ref \<times> heap"
where
  "invoke m this h =
     (if this < length h
      then (case m (h ! this) of Inl e \<Rightarrow> Inl e | Inr b \<Rightarrow> Inr (this, h[this := b]))
      else Inl TypeError)"

definition stringify_at :: "ref \<Rightarrow> heap \<Rightarrow> error + string \<times> heap" where
  "stringify_at this h =
     (if this < length h
      then Inr (fst (stringify (h ! this)), h[this := snd (stringify (h ! this))])
      else Inl TypeError)"

definition combine_at :: "ref \<Rightarrow> ref \<Rightarrow> string \<Rightarrow> ref \<Rightarrow> heap \<Rightarrow> error + ref \<times> heap" where
  "combine_at this selector1 combinator selector2 h =
     (if this < length h \<and> selector1 < length h \<and> selector2 < length h
      then Inr (this, h[this := combine (h ! selector1) combinator (h ! selector2) (h ! this)])
      else Inl TypeError)"

text \<open>\<open>new CssSelectorBuilder()\<close> allocates a fresh object.\<close>

definition new_at :: "heap \<Rightarrow> ref \<times> heap" where
  "new_at h = (length h, h @ [new_CssSelectorBuilder])"


subsection \<open>The facade \<open>cssSelectorBuilder\<close>\<close>

text \<open>
  Each entry point creates an object, calls one method on it, drops what the method
  returns and returns the reference it created. The selectors handed to the \<open>combine\<close>
  entry point are values of the caller, who cannot know the object the call creates:
  a reference that points to no builder of the heap the call starts with is
  \<open>undefined\<close>, and reading its \<open>cssArray\<close> raises \<open>TypeError\<close>.
\<close>

definition facade ::
  "(ref \<Rightarrow> heap \<Rightarrow> error + ref \<times> heap) \<Rightarrow> heap \<Rightarrow> error + ref \<times> heap"
where
  "facade call h =
     (case new_at h of (cssSelector, h1) \<Rightarrow>
        (case call cssSelector h1 of Inl e \<Rightarrow> Inl e | Inr (_, h2) \<Rightarrow> Inr (cssSelector, h2)))"

definition cssSelectorBuilder_element :: "string \<Rightarrow> heap \<Rightarrow> error + ref \<times> heap" where
  "cssSelectorBuilder_element v = facade (invoke (element v))"

definition cssSelectorBuilder_id :: "string \<Rightarrow> heap \<Rightarrow> error + ref \<times> heap" where
  "cssSelectorBuilder_id v = facade (invoke (idSel v))"

definition cssSelectorBuilder_class :: "string \<Rightarrow> heap \<Rightarrow> error + ref \<times> heap" where
  "cssSelectorBuilder_class v = facade (invoke (classSel v))"

definition cssSelectorBuilder_attr :: "string \<Rightarrow> heap \<Rightarrow> error + ref \<times> heap" where
  "cssSelectorBuilder_attr v = facade (invoke (attr v))"

definition cssSelectorBuilder_pseudoClass :: "string \<Rightarrow> heap \<Rightarrow> error + ref \<times> heap" where
  "cssSelectorBuilder_pseudoClass v = facade (invoke (pseudoClass v))"

definition cssSelectorBuilder_pseudoElement :: "string \<Rightarrow> heap \<Rightarrow> error + ref \<times> heap" where
  "cssSelectorBuilder_pseudoElement v = facade (invoke (pseudoElement v))"

definition cssSelectorBuilder_combine :: "ref \<Rightarrow> string \<Rightarrow> ref \<Rightarrow> heap \<Rightarrow> error + ref \<times> heap" where
  "cssSelectorBuilder_combine selector1 combinator selector2 h =
     (if selector1 < length h \<and> selector2 < length h
      then facade (\<lambda>this. combine_at this selector1 combinator selector2) h
      else Inl TypeError)"

text \<open>The six appending entry points, by category.\<close>

fun cssSelectorBuilder_append :: "category \<Rightarrow> string \<Rightarrow> heap \<Rightarrow> error + ref \<times> heap" where
  "cssSelectorBuilder_append Element = cssSelectorBuilder_element"
| "cssSelectorBuilder_append Id = cssSelectorBuilder_id"
| "cssSelectorBuilder_append Class = cssSelectorBuilder_class"
| "cssSelectorBuilder_append Attribute = cssSelectorBuilder_attr"
| "cssSelectorBuilder_append PseudoClass = cssSelectorBuilder_pseudoClass"
| "cssSelectorBuilder_append PseudoElement = cssSelectorBuilder_pseudoElement"


section \<open>Serialisation helpers\<close>

text \<open>
  \<^verbatim>\<open>function getJSON(obj) { return JSON.stringify(obj); }
  function fromJSON(proto, json) { return Object.setPrototypeOf(JSON.parse(json), proto); }\<close>
  Both functions only call built-ins of the language. The built-ins are written out
  below, after their definitions in the ECMAScript standard, for the values JSON text
  can denote.
\<close>

subsection \<open>Values\<close>

text \<open>
  Modelled from the spec: the specification speaks of plain data, structured data and a
  shape (a prototype); the values themselves belong to the language, not to the
  repository. A value is \<open>null\<close>, a boolean, a number, a string, an array or an object.
  Numbers are the integers; the text of a number with a fraction or an exponent, and an
  integer beyond \<open>2^53 - 1\<close>, are outside the model. A string is a list of 8-bit
  characters, so code units above 255 are outside the model too. An object is the list
  of its own properties in the order the language enumerates them.
\<close>

datatype json =
  JNull
| JBool bool
| JNumber int
| JString string
| JArray "json list"
| JObject "(string \<times> json) list"

text \<open>
  Modelled from the spec: a shape. All that the built-ins below read of a prototype is
  whether it is \<open>null\<close> or an object, and its \<open>toJSON\<close> method if it has one (a function
  of the value it is called on).
\<close>

datatype proto = NullProto | ObjectProto "(json \<Rightarrow> json) option"


text \<open>
  A value as a program holds it: the data and the prototype of the outermost object.
  Nested objects and arrays are plain (their prototypes have no \<open>toJSON\<close>). The
  prototype of plain data and of every value \<open>JSON.parse\<close> returns is \<open>default_proto\<close>.
\<close>

datatype jsvalue = Value proto json

definition default_proto :: proto where
  "default_proto = ObjectProto None"

fun is_object :: "json \<Rightarrow> bool" where
  "is_object (JArray _) = True"
| "is_object (JObject _) = True"
| "is_object _ = False"

text \<open>
  The errors of the built-ins: the \<open>SyntaxError\<close> of \<open>JSON.parse\<close> and the \<open>TypeError\<close> of
  \<open>Object.setPrototypeOf\<close>. \<open>OutsideModel\<close> marks a text whose value the model does
  not hold; \<open>OutOfFuel\<close> is the end of the parser's recursion budget, which
  \<open>JSON_parse\<close> never reaches (shown below).
\<close>

datatype json_error = SyntaxError | SetPrototypeTypeError | OutsideModel | OutOfFuel

type_synonym 'a parsed = "json_error + 'a \<times> string"

subsection \<open>\<open>JSON.stringify\<close>\<close>










subsection \<open>\<open>JSON.parse\<close>\<close>

text \<open>
  Modelled from the spec: the specification says that the text is parsed as structured
  data and that invalid text surfaces as a parse error. Written after the JSON grammar
  of the standard: white space between tokens, the three literals, numbers, strings with
  their escapes, arrays and objects. No reviver.
\<close>

definition digit_val :: "char \<Rightarrow> nat option" where
  "digit_val c =
     map_of [(CHR ''0'', 0), (CHR ''1'', 1), (CHR ''2'', 2), (CHR ''3'', 3), (CHR ''4'', 4),
             (CHR ''5'', 5), (CHR ''6'', 6), (CHR ''7'', 7), (CHR ''8'', 8), (CHR ''9'', 9)] c"

definition hex_val :: "char \<Rightarrow> nat option" where
  "hex_val c =
     (case digit_val c of Some d \<Rightarrow> Some d
      | None \<Rightarrow>
         if c = CHR ''a'' \<or> c = CHR ''A'' then Some 10
         else if c = CHR ''b'' \<or> c = CHR ''B'' then Some 11
         else if c = CHR ''c'' \<or> c = CHR ''C'' then Some 12
         else if c = CHR ''d'' \<or> c = CHR ''D'' then Some 13
         else if c = CHR ''e'' \<or> c = CHR ''E'' then Some 14
         else if c = CHR ''f'' \<or> c = CHR ''F'' then Some 15
         else None)"

definition is_ws :: "char \<Rightarrow> bool" where
  "is_ws c \<longleftrightarrow> c = CHR 0x20 \<or> c = CHR 0x09 \<or> c = CHR 0x0A \<or> c = CHR 0x0D"

definition skip_ws :: "string \<Rightarrow> string" where
  "skip_ws s = dropWhile is_ws s"

definition parse_literal :: "string \<Rightarrow> json \<Rightarrow> string \<Rightarrow> json parsed" where
  "parse_literal w v s =
     (if take (length w) s = w then Inr (v, drop (length w) s) else Inl SyntaxError)"

text \<open>
  A number is an optional minus sign and \<open>0\<close> or a digit sequence without leading zero.
\<close>

fun parse_digits :: "nat \<Rightarrow> string \<Rightarrow> nat \<times> string" where
  "parse_digits acc [] = (acc, [])"
| "parse_digits acc (c # cs) =
     (case digit_val c of None \<Rightarrow> (acc, c # cs) | Some d \<Rightarrow> parse_digits (10 * acc + d) cs)"

definition MAX_SAFE_INTEGER :: nat where
  "MAX_SAFE_INTEGER = 9007199254740991"

definition parse_unsigned :: "string \<Rightarrow> nat parsed" where
  "parse_unsigned s =
     (case s of
        [] \<Rightarrow> Inl SyntaxError
      | c # cs \<Rightarrow>
         (case digit_val c of
            None \<Rightarrow> Inl SyntaxError
          | Some d \<Rightarrow>
             (case (if d = 0 then (0, cs) else parse_digits d cs) of (n, r) \<Rightarrow>
                (case r of
                   [] \<Rightarrow> if n \<le> MAX_SAFE_INTEGER then Inr (n, r) else Inl OutsideModel
                 | x # _ \<Rightarrow>
                    if x = CHR ''.'' \<or> x = CHR ''e'' \<or> x = CHR ''E'' then Inl OutsideModel
                    else if n \<le> MAX_SAFE_INTEGER then Inr (n, r) else Inl OutsideModel))))"

definition parse_number :: "string \<Rightarrow> json parsed" where
  "parse_number s =
     (case s of
        [] \<Rightarrow> Inl SyntaxError
      | c # cs \<Rightarrow>
         if c = CHR ''-''
         then (case parse_unsigned cs of Inl e \<Rightarrow> Inl e | Inr (n, r) \<Rightarrow> Inr (JNumber (- int n), r))
         else (case parse_unsigned s of Inl e \<Rightarrow> Inl e | Inr (n, r) \<Rightarrow> Inr (JNumber (int n), r)))"

text \<open>The characters of a string, after its opening quotation mark.\<close>

definition unescape :: "char \<Rightarrow> char option" where
  "unescape e =
     (if e = CHR 0x22 then Some (CHR 0x22)
      else if e = CHR 0x5C then Some (CHR 0x5C)
      else if e = CHR ''/'' then Some (CHR ''/'')
      else if e = CHR ''b'' then Some (CHR 0x08)
      else if e = CHR ''f'' then Some (CHR 0x0C)
      else if e = CHR ''n'' then Some (CHR 0x0A)
      else if e = CHR ''r'' then Some (CHR 0x0D)
      else if e = CHR ''t'' then Some (CHR 0x09)
      else None)"

definition unicode_escape :: "char \<Rightarrow> char \<Rightarrow> char \<Rightarrow> char \<Rightarrow> json_error + char" where
  "unicode_escape a b c d =
     (case (hex_val a, hex_val b, hex_val c, hex_val d) of
        (Some x, Some y, Some z, Some w) \<Rightarrow>
          if x = 0 \<and> y = 0 then Inr (char_of (16 * z + w)) else Inl OutsideModel
      | _ \<Rightarrow> Inl SyntaxError)"

fun parse_string_chars :: "string \<Rightarrow> string parsed" where
  "parse_string_chars [] = Inl SyntaxError"
| "parse_string_chars (c # cs) =
     (if c = CHR 0x22 then Inr ([], cs)
      else if c = CHR 0x5C then
        (case cs of
           [] \<Rightarrow> Inl SyntaxError
         | e # cs1 \<Rightarrow>
            if e = CHR ''u'' then
              (case cs1 of
                 h1 # h2 # h3 # h4 # cs2 \<Rightarrow>
                   (case unicode_escape h1 h2 h3 h4 of
                      Inl err \<Rightarrow> Inl err
                    | Inr x \<Rightarrow>
                       (case parse_string_chars cs2 of
                          Inl err \<Rightarrow> Inl err
                        | Inr (str, r) \<Rightarrow> Inr (x # str, r)))
               | _ \<Rightarrow> Inl SyntaxError)
            else
              (case unescape e of
                 None \<Rightarrow> Inl SyntaxError
               | Some x \<Rightarrow>
                  (case parse_string_chars cs1 of
                     Inl err \<Rightarrow> Inl err
                   | Inr (str, r) \<Rightarrow> Inr (x # str, r))))
      else if (of_char c :: nat) < 32 then Inl SyntaxError
      else (case parse_string_chars cs of
              Inl err \<Rightarrow> Inl err
            | Inr (str, r) \<Rightarrow> Inr (c # str, r)))"

text \<open>
  An object is built by defining its properties in the order of the text
  (\<open>CreateDataProperty\<close>). A key defined twice keeps its place and takes the later
  value. The own properties are enumerated with the array indices first, in ascending
  order, then the other keys in the order of their creation.
\<close>

definition array_index :: "string \<Rightarrow> nat option" where
  "array_index k =
     (case parse_unsigned k of
        Inr (n, []) \<Rightarrow> if n < 4294967295 then Some n else None
      | _ \<Rightarrow> None)"

fun insert_index :: "nat \<Rightarrow> string \<times> json \<Rightarrow> (string \<times> json) list \<Rightarrow> (string \<times> json) list" where
  "insert_index i kv [] = [kv]"
| "insert_index i kv (p # ps) =
     (case array_index (fst p) of
        Some j \<Rightarrow> if j < i then p # insert_index i kv ps else kv # p # ps
      | None \<Rightarrow> kv # p # ps)"

definition CreateDataProperty ::
  "(string \<times> json) list \<Rightarrow> string \<times> json \<Rightarrow> (string \<times> json) list" where
  "CreateDataProperty ps kv =
     (if fst kv \<in> fst ` set ps then map (\<lambda>p. if fst p = fst kv then kv else p) ps
      else (case array_index (fst kv) of
              None \<Rightarrow> ps @ [kv]
            | Some i \<Rightarrow> insert_index i kv ps))"

text \<open>
  The recursive descent, on a budget of recursive calls. \<open>parse_elements\<close> reads the
  elements of an array after its opening bracket or a comma, \<open>parse_members\<close> the
  members of an object likewise.
\<close>

fun parse_value :: "nat \<Rightarrow> string \<Rightarrow> json parsed"
  and parse_elements :: "nat \<Rightarrow> string \<Rightarrow> json list parsed"
  and parse_members :: "nat \<Rightarrow> string \<Rightarrow> (string \<times> json) list parsed"
where
  "parse_value 0 s = Inl OutOfFuel"
| "parse_value (Suc n) s =
     (case skip_ws s of
        [] \<Rightarrow> Inl SyntaxError
      | c # cs \<Rightarrow>
         if c = CHR ''n'' then parse_literal ''null'' JNull (c # cs)
         else if c = CHR ''t'' then parse_literal ''true'' (JBool True) (c # cs)
         else if c = CHR ''f'' then parse_literal ''false'' (JBool False) (c # cs)
         else if c = CHR 0x22 then
           (case parse_string_chars cs of
              Inl e \<Rightarrow> Inl e
            | Inr (str, r) \<Rightarrow> Inr (JString str, r))
         else if c = CHR ''['' then
           (case skip_ws cs of
              [] \<Rightarrow> Inl SyntaxError
            | x # r \<Rightarrow>
               if x = CHR '']'' then Inr (JArray [], r)
               else (case parse_elements n cs of
                       Inl e \<Rightarrow> Inl e
                     | Inr (vs, r') \<Rightarrow> Inr (JArray vs, r')))
         else if c = CHR ''{'' then
           (case skip_ws cs of
              [] \<Rightarrow> Inl SyntaxError
            | x # r \<Rightarrow>
               if x = CHR ''}'' then Inr (JObject [], r)
               else (case parse_members n cs of
                       Inl e \<Rightarrow> Inl e
                     | Inr (ps, r') \<Rightarrow> Inr (JObject (foldl CreateDataProperty [] ps), r')))
         else if c = CHR ''-'' \<or> digit_val c \<noteq> None then parse_number (c # cs)
         else Inl SyntaxError)"
| "parse_elements 0 s = Inl OutOfFuel"
| "parse_elements (Suc n) s =
     (case parse_value n s of
        Inl e \<Rightarrow> Inl e
      | Inr (v, r) \<Rightarrow>
         (case skip_ws r of
            [] \<Rightarrow> Inl SyntaxError
          | x # r' \<Rightarrow>
             if x = CHR '','' then
               (case parse_elements n r' of
                  Inl e \<Rightarrow> Inl e
                | Inr (vs, r'') \<Rightarrow> Inr (v # vs, r''))
             else if x = CHR '']'' then Inr ([v], r')
             else Inl SyntaxError))"
| "parse_members 0 s = Inl OutOfFuel"
| "parse_members (Suc n) s =
     (case skip_ws s of
        [] \<Rightarrow> Inl SyntaxError
      | q # cs \<Rightarrow>
         if q \<noteq> CHR 0x22 then Inl SyntaxError
         else
           (case parse_string_chars cs of
              Inl e \<Rightarrow> Inl e
            | Inr (k, r) \<Rightarrow>
               (case skip_ws r of
                  [] \<Rightarrow> Inl SyntaxError
                | y # r1 \<Rightarrow>
                   if y \<noteq> CHR '':'' then Inl SyntaxError
                   else
                     (case parse_value n r1 of
                        Inl e \<Rightarrow> Inl e
                      | Inr (v, r2) \<Rightarrow>
                         (case skip_ws r2 of
                            [] \<Rightarrow> Inl SyntaxError
                          | x # r3 \<Rightarrow>
                             if x = CHR '','' then
                               (case parse_members n r3 of
                                  Inl e \<Rightarrow> Inl e
                                | Inr (ps, r4) \<Rightarrow> Inr ((k, v) # ps, r4))
                             else if x = CHR ''}'' then Inr ([(k, v)], r3)
                             else Inl SyntaxError)))))"

definition JSON_parse :: "string \<Rightarrow> json_error + jsvalue" where
  "JSON_parse text =
     (case parse_value (2 * length text + 1) text of
        Inl e \<Rightarrow> Inl e
      | Inr (v, r) \<Rightarrow> if skip_ws r = [] then Inr (Value default_proto v) else Inl SyntaxError)"

subsection \<open>\<open>Object.setPrototypeOf\<close>\<close>

text \<open>
  Modelled from the spec: the specification says that the parsed record is tagged with
  the shape. Written after the standard: \<open>null\<close> as target raises \<open>TypeError\<close>, a target
  that is no object is returned as it is, an object gets the prototype.
\<close>

fun Object_setPrototypeOf :: "jsvalue \<Rightarrow> proto \<Rightarrow> json_error + jsvalue" where
  "Object_setPrototypeOf (Value p v) proto =
     (if v = JNull then Inl SetPrototypeTypeError
      else if is_object v then Inr (Value proto v)
      else Inr (Value p v))"

subsection \<open>The two functions of the repository\<close>


definition fromJSON :: "proto \<Rightarrow> string \<Rightarrow> json_error + jsvalue" where
  "fromJSON proto json =
     (case JSON_parse json of Inl e \<Rightarrow> Inl e | Inr v \<Rightarrow> Object_setPrototypeOf v proto)"

subsection \<open>Plain data\<close>






definition follow :: "string \<Rightarrow> bool" where
  "follow r \<longleftrightarrow>
     (case r of [] \<Rightarrow> True | x # _ \<Rightarrow> x = CHR '','' \<or> x = CHR '']'' \<or> x = CHR ''}'')"



section \<open>Facts about one builder\<close>

lemmas method_defs =
  element_def idSel_def classSel_def attr_def pseudoClass_def pseudoElement_def

lemma rank_le5: "rank k \<le> 5"
  by (cases k) auto

lemma rank_ge0: "0 \<le> rank k"
  by (cases k) auto

lemma rank_inj: "rank k = rank k' \<Longrightarrow> k = k'"
  by (cases k; cases k'; simp)

lemma marker_eq:
  "marker k = ''element'' \<longleftrightarrow> k = Element"
  "marker k = ''id'' \<longleftrightarrow> k = Id"
  "marker k = ''pseudoElement'' \<longleftrightarrow> k = PseudoElement"
  by (cases k; simp)+

text \<open>What a successful append did to the object, and what it found there.\<close>

lemma append_Inr:
  assumes "appendFragment k v b = Inr b'"
  shows "order b' = rank k" and "cssArray b' = cssArray b @ [rendered k v]"
    and "previousSelector b' = marker k" and "k \<noteq> PseudoElement \<Longrightarrow> order b \<le> rank k"
  using assms by (cases k; auto simp: method_defs split: if_splits)+

lemma appendAll_snoc:
  "appendAll (cs @ [c]) b =
     (case appendAll cs b of Inl e \<Rightarrow> Inl e | Inr b' \<Rightarrow> appendFragment (fst c) (snd c) b')"
  by (induction cs arbitrary: b) (auto split: sum.splits)

text \<open>
  The state of a builder after a chain of successful appends on a new object: the array
  holds the renderings in call order, \<open>order\<close> and \<open>previousSelector\<close> are those of the
  last call, and no appended category ranks above \<open>order\<close>.
\<close>

lemma chain_state:
  "appendAll cs new_CssSelectorBuilder = Inr b \<Longrightarrow>
     cssArray b = map (\<lambda>c. rendered (fst c) (snd c)) cs \<and>
     order b = (if cs = [] then - 1 else rank (fst (last cs))) \<and>
     previousSelector b = (if cs = [] then [] else marker (fst (last cs))) \<and>
     (\<forall>c\<in>set cs. rank (fst c) \<le> order b)"
proof (induction cs arbitrary: b rule: rev_induct)
  case Nil
  then show ?case by (auto simp: new_CssSelectorBuilder_def)
next
  case (snoc c cs)
  from snoc.prems obtain b0 where
    b0: "appendAll cs new_CssSelectorBuilder = Inr b0" and
    step: "appendFragment (fst c) (snd c) b0 = Inr b"
    by (auto simp: appendAll_snoc split: sum.splits)
  note ih = snoc.IH [OF b0]
  note st = append_Inr [OF step]
  have "\<forall>x\<in>set cs. rank (fst x) \<le> rank (fst c)"
  proof (cases "fst c = PseudoElement")
    case True
    then show ?thesis using rank_le5 by simp
  next
    case False
    from st(4) [OF False] ih show ?thesis by force
  qed
  with ih st show ?case by simp
qed

lemma exists_higher:
  assumes "appendAll cs new_CssSelectorBuilder = Inr b"
  shows "(\<exists>c\<in>set cs. rank k < rank (fst c)) \<longleftrightarrow> rank k < order b"
proof (cases "cs = []")
  case True
  with chain_state [OF assms] rank_ge0 [of k] show ?thesis by simp
next
  case False
  then have "last cs \<in> set cs" by simp
  with chain_state [OF assms] False show ?thesis by force
qed

lemma out_of_order_iff:
  assumes "appendAll cs new_CssSelectorBuilder = Inr b"
  shows "appendFragment k v b = Inl OutOfOrder \<longleftrightarrow> rank k < order b"
  using chain_state [OF assms] rank_le5 [of "fst (last cs)"]
  by (cases k; cases "cs = []"; auto simp: method_defs marker_eq)

text \<open>
  A second call of an exclusive method on a chain that already holds its fragment: the
  duplicate check only sees the most recent append, the order check catches the rest.
\<close>

lemma second_exclusive:
  assumes "appendAll cs new_CssSelectorBuilder = Inr b"
    and "k \<in> {Element, Id, PseudoElement}" and "k \<in> fst ` set cs"
  shows "appendFragment k v b =
           Inl (if fst (last cs) = k then DuplicateExclusive else OutOfOrder)"
proof -
  from assms(3) have ne: "cs \<noteq> []" by auto
  from assms(3) chain_state [OF assms(1)] have le: "rank k \<le> order b" by auto
  from chain_state [OF assms(1)] ne have
    o: "order b = rank (fst (last cs))" and p: "previousSelector b = marker (fst (last cs))"
    by simp_all
  show ?thesis
  proof (cases "fst (last cs) = k")
    case True
    with assms(2) p show ?thesis by (auto simp: method_defs)
  next
    case False
    with le o rank_inj [of k "fst (last cs)"] have lt: "rank k < order b" by force
    from False p have "previousSelector b \<noteq> marker k"
      using assms(2) by (auto simp: marker_eq)
    with lt False assms(2) rank_le5 [of "fst (last cs)"] o show ?thesis
      by (auto simp: method_defs)
  qed
qed

lemma at_most_one:
  assumes "appendAll cs new_CssSelectorBuilder = Inr b" and "k \<in> {Element, Id, PseudoElement}"
  shows "length (filter (\<lambda>c. fst c = k) cs) \<le> 1"
  using assms(1)
proof (induction cs arbitrary: b rule: rev_induct)
  case Nil
  then show ?case by simp
next
  case (snoc c cs)
  from snoc.prems obtain b0 where
    b0: "appendAll cs new_CssSelectorBuilder = Inr b0" and
    step: "appendFragment (fst c) (snd c) b0 = Inr b"
    by (auto simp: appendAll_snoc split: sum.splits)
  show ?case
  proof (cases "fst c = k")
    case False
    with snoc.IH [OF b0] show ?thesis by simp
  next
    case True
    have "k \<notin> fst ` set cs"
    proof
      assume "k \<in> fst ` set cs"
      from second_exclusive [OF b0 assms(2) this, of "snd c"] step True show False by simp
    qed
    then have "filter (\<lambda>c. fst c = k) cs = []" by (auto simp: filter_empty_conv)
    with True show ?thesis by simp
  qed
qed

text \<open>A chain the builder accepts is a valid sequence.\<close>

lemma accepted_sorted:
  "appendAll cs new_CssSelectorBuilder = Inr b \<Longrightarrow> sorted (map (\<lambda>c. rank (fst c)) cs)"
proof (induction cs arbitrary: b rule: rev_induct)
  case Nil
  then show ?case by simp
next
  case (snoc c cs)
  from snoc.prems obtain b0 where
    b0: "appendAll cs new_CssSelectorBuilder = Inr b0" and
    step: "appendFragment (fst c) (snd c) b0 = Inr b"
    by (auto simp: appendAll_snoc split: sum.splits)
  have "\<forall>x\<in>set cs. rank (fst x) \<le> rank (fst c)"
  proof (cases "fst c = PseudoElement")
    case True
    then show ?thesis using rank_le5 by simp
  next
    case False
    from append_Inr(4) [OF step False] chain_state [OF b0] show ?thesis by force
  qed
  with snoc.IH [OF b0] show ?case
    by (simp add: sorted_append)
qed

lemma accepted_valid:
  assumes "appendAll cs new_CssSelectorBuilder = Inr b"
  shows "valid cs"
  using accepted_sorted [OF assms] at_most_one [OF assms, of Element]
    at_most_one [OF assms, of Id] at_most_one [OF assms, of PseudoElement]
  by (simp add: valid_def)

text \<open>A valid sequence is accepted: no append of it raises an error.\<close>

lemma valid_snoc:
  assumes "valid (cs @ [c])"
  shows "valid cs" and "\<forall>x\<in>set cs. rank (fst x) \<le> rank (fst c)"
    and "fst c \<in> {Element, Id, PseudoElement} \<Longrightarrow> fst c \<notin> fst ` set cs"
proof -
  from assms show "valid cs" and "\<forall>x\<in>set cs. rank (fst x) \<le> rank (fst c)"
    by (auto simp: valid_def sorted_append split: if_splits)
  assume "fst c \<in> {Element, Id, PseudoElement}"
  with assms have "filter (\<lambda>x. fst x = fst c) cs = []"
    by (auto simp: valid_def)
  then show "fst c \<notin> fst ` set cs"
    by (auto simp: filter_empty_conv)
qed

lemma valid_accepted:
  "valid cs \<Longrightarrow> \<exists>b. appendAll cs new_CssSelectorBuilder = Inr b"
proof (induction cs rule: rev_induct)
  case Nil
  show ?case by simp
next
  case (snoc c cs)
  note v = valid_snoc [OF snoc.prems]
  from snoc.IH [OF v(1)] obtain b0 where b0: "appendAll cs new_CssSelectorBuilder = Inr b0" ..
  note st = chain_state [OF b0]
  have o: "order b0 \<le> rank (fst c)"
  proof (cases "cs = []")
    case True
    with st rank_ge0 [of "fst c"] show ?thesis by simp
  next
    case False
    then have "last cs \<in> set cs" by simp
    with v(2) st False show ?thesis by auto
  qed
  have p: "previousSelector b0 \<noteq> marker (fst c)" if "fst c \<in> {Element, Id, PseudoElement}"
  proof (cases "cs = []")
    case True
    with st that show ?thesis by auto
  next
    case False
    then have "fst (last cs) \<in> fst ` set cs" by simp
    with v(3) [OF that] have ne: "fst (last cs) \<noteq> fst c" by metis
    from st False have "previousSelector b0 = marker (fst (last cs))" by simp
    with ne that show ?thesis
      by (auto simp: marker_eq)
  qed
  from o p have "\<exists>b. appendFragment (fst c) (snd c) b0 = Inr b"
    by (cases "fst c") (auto simp: method_defs)
  with b0 show ?case
    by (simp add: appendAll_snoc)
qed

text \<open>Once \<open>order\<close> is 5, appends and combinations leave it at 5.\<close>

lemma perform_keeps_5:
  assumes "perform x b = Inr b'" and "order b = 5"
  shows "order b' = 5"
proof (cases x)
  case (Append k v)
  with assms(1) have a: "appendFragment k v b = Inr b'" by simp
  show ?thesis
  proof (cases "k = PseudoElement")
    case True
    with append_Inr(1) [OF a] show ?thesis by simp
  next
    case False
    with append_Inr(4) [OF a] assms(2) have "5 \<le> rank k" by simp
    with False have False by (cases k) auto
    then show ?thesis ..
  qed
next
  case (Combine s1 c s2)
  with assms show ?thesis by (auto simp: combine_def)
qed

lemma performAll_keeps_5:
  "performAll xs b = Inr b' \<Longrightarrow> order b = 5 \<Longrightarrow> order b' = 5"
proof (induction xs arbitrary: b)
  case Nil
  then show ?case by simp
next
  case (Cons x xs)
  then show ?case by (auto split: sum.splits dest: perform_keeps_5)
qed


section \<open>Ordering and uniqueness of fragments\<close>

text \<open>
  Claim C1. On a chain built from a new builder by successful appends only, a further
  append raises \<open>OutOfOrder\<close> exactly when its category ranks strictly below some
  category already appended (that is, below the highest one). An append whose rank is
  at least every rank already present never raises it; for \<open>class\<close>, \<open>attr\<close> and
  \<open>pseudoClass\<close>, which have no other check, such an append succeeds, so each of
  them may be repeated.
\<close>

theorem out_of_order_iff_below_highest_rank:
  assumes "appendAll cs new_CssSelectorBuilder = Inr b"
  shows "(appendFragment k v b = Inl OutOfOrder \<longleftrightarrow> (\<exists>c\<in>set cs. rank k < rank (fst c))) \<and>
         (k \<in> {Class, Attribute, PseudoClass} \<longrightarrow> (\<forall>c\<in>set cs. rank (fst c) \<le> rank k) \<longrightarrow>
            (\<exists>b'. appendFragment k v b = Inr b'))"
proof
  show "appendFragment k v b = Inl OutOfOrder \<longleftrightarrow> (\<exists>c\<in>set cs. rank k < rank (fst c))"
    using out_of_order_iff [OF assms] exists_higher [OF assms] by simp
  show "k \<in> {Class, Attribute, PseudoClass} \<longrightarrow> (\<forall>c\<in>set cs. rank (fst c) \<le> rank k) \<longrightarrow>
            (\<exists>b'. appendFragment k v b = Inr b')"
  proof (intro impI)
    assume k: "k \<in> {Class, Attribute, PseudoClass}"
      and le: "\<forall>c\<in>set cs. rank (fst c) \<le> rank k"
    from le have "\<not> rank k < order b" using exists_higher [OF assms, of k] by force
    with k show "\<exists>b'. appendFragment k v b = Inr b'"
      by (auto simp: method_defs)
  qed
qed

theorem out_of_order_iff_below_highest_rank_witness:
  "appendAll [(Id, ''main''), (Class, ''container'')] new_CssSelectorBuilder =
     Inr \<lparr>previousSelector = [], cssArray = [''#main'', ''.container''], order = 2\<rparr> \<and>
   (\<exists>c\<in>set [(Id, ''main''), (Class, ''container'')]. rank Element < rank (fst c)) \<and>
   appendFragment Element ''div''
     \<lparr>previousSelector = [], cssArray = [''#main'', ''.container''], order = 2\<rparr> = Inl OutOfOrder \<and>
   (\<exists>b'. appendFragment Class ''editable''
     \<lparr>previousSelector = [], cssArray = [''#main'', ''.container''], order = 2\<rparr> = Inr b')"
proof -
  let ?cs = "[(Id, ''main''), (Class, ''container'')]"
  let ?b = "\<lparr>previousSelector = [], cssArray = [''#main'', ''.container''], order = 2\<rparr>"
  have a: "appendAll ?cs new_CssSelectorBuilder = Inr ?b"
    by (simp add: method_defs new_CssSelectorBuilder_def)
  have r: "\<exists>c\<in>set ?cs. rank Element < rank (fst c)"
    by simp
  from out_of_order_iff_below_highest_rank [OF a, of Element "''div''"] r
  have o: "appendFragment Element ''div'' ?b = Inl OutOfOrder"
    by blast
  have "Class \<in> {Class, Attribute, PseudoClass}" and "\<forall>c\<in>set ?cs. rank (fst c) \<le> rank Class"
    by simp_all
  with out_of_order_iff_below_highest_rank [OF a, of Class "''editable''"]
  have e: "\<exists>b'. appendFragment Class ''editable'' ?b = Inr b'"
    by blast
  from a r o e show ?thesis
    by (intro conjI)
qed

text \<open>
  Claim C2, as stated, fails: \<open>previousSelector\<close> remembers only the most recent
  append, so after \<open>element('a').id('b')\<close> a second \<open>element\<close> call is not met by the
  duplicate error; the order check raises \<open>OutOfOrder\<close> instead.
\<close>

theorem second_element_after_id_is_out_of_order:
  "appendAll [(Element, ''a''), (Id, ''b'')] new_CssSelectorBuilder =
     Inr \<lparr>previousSelector = ''id'', cssArray = [''a'', ''#b''], order = 1\<rparr> \<and>
   element ''c'' \<lparr>previousSelector = ''id'', cssArray = [''a'', ''#b''], order = 1\<rparr> =
     Inl OutOfOrder \<and>
   element ''c'' \<lparr>previousSelector = ''id'', cssArray = [''a'', ''#b''], order = 1\<rparr> \<noteq>
     Inl DuplicateExclusive"
  by (simp add: method_defs new_CssSelectorBuilder_def)

text \<open>
  Claim C2, amended. On a chain built from a new builder by successful appends only,
  calling \<open>element\<close>, \<open>id\<close> or \<open>pseudoElement\<close> when a fragment of that category was
  already appended always raises an error: \<open>DuplicateExclusive\<close> when that fragment is
  the most recent append, \<open>OutOfOrder\<close> otherwise. Hence such a chain holds at most one
  element, one id and one pseudo-element fragment.
\<close>

theorem exclusive_fragment_at_most_once:
  assumes "appendAll cs new_CssSelectorBuilder = Inr b" and "k \<in> {Element, Id, PseudoElement}"
  shows "length (filter (\<lambda>c. fst c = k) cs) \<le> 1 \<and>
         (k \<in> fst ` set cs \<longrightarrow>
            appendFragment k v b =
              Inl (if fst (last cs) = k then DuplicateExclusive else OutOfOrder))"
  using at_most_one [OF assms] second_exclusive [OF assms] by blast

theorem exclusive_fragment_at_most_once_witness:
  "appendAll [(Element, ''table''), (Class, ''wide'')] new_CssSelectorBuilder =
     Inr \<lparr>previousSelector = [], cssArray = [''table'', ''.wide''], order = 2\<rparr> \<and>
   length (filter (\<lambda>c. fst c = Element) [(Element, ''table''), (Class, ''wide'')]) \<le> 1 \<and>
   appendFragment Element ''div''
     \<lparr>previousSelector = [], cssArray = [''table'', ''.wide''], order = 2\<rparr> = Inl OutOfOrder \<and>
   appendAll [(Element, ''table'')] new_CssSelectorBuilder =
     Inr \<lparr>previousSelector = ''element'', cssArray = [''table''], order = 0\<rparr> \<and>
   appendFragment Element ''div''
     \<lparr>previousSelector = ''element'', cssArray = [''table''], order = 0\<rparr> =
     Inl DuplicateExclusive"
proof -
  let ?cs = "[(Element, ''table''), (Class, ''wide'')]"
  let ?b = "\<lparr>previousSelector = [], cssArray = [''table'', ''.wide''], order = 2\<rparr>"
  let ?cs' = "[(Element, ''table'')]"
  let ?b' = "\<lparr>previousSelector = ''element'', cssArray = [''table''], order = 0\<rparr>"
  have k: "Element \<in> {Element, Id, PseudoElement}"
    by simp
  have a: "appendAll ?cs new_CssSelectorBuilder = Inr ?b"
    by (simp add: method_defs new_CssSelectorBuilder_def)
  have m: "Element \<in> fst ` set ?cs"
    by simp
  from exclusive_fragment_at_most_once [OF a k, of "''div''"] m
  have n: "length (filter (\<lambda>c. fst c = Element) ?cs) \<le> 1"
    and "appendFragment Element ''div'' ?b =
      Inl (if fst (last ?cs) = Element then DuplicateExclusive else OutOfOrder)"
    by blast+
  then have o: "appendFragment Element ''div'' ?b = Inl OutOfOrder"
    by simp
  have a': "appendAll ?cs' new_CssSelectorBuilder = Inr ?b'"
    by (simp add: method_defs new_CssSelectorBuilder_def)
  have m': "Element \<in> fst ` set ?cs'"
    by simp
  from exclusive_fragment_at_most_once [OF a' k, of "''div''"] m'
  have "appendFragment Element ''div'' ?b' =
      Inl (if fst (last ?cs') = Element then DuplicateExclusive else OutOfOrder)"
    by blast
  then have d: "appendFragment Element ''div'' ?b' = Inl DuplicateExclusive"
    by simp
  from a n o a' d show ?thesis
    by (intro conjI)
qed


section \<open>Rendering\<close>

text \<open>
  Claim C3. Every valid fragment sequence (ranks never decreasing, element, id and
  pseudo-element at most once) is appended to a new builder without error, and
  \<open>stringify\<close> then returns the renderings of the fragments, in call order,
  concatenated with nothing in between: \<open>name\<close>, \<open>#name\<close>, \<open>.name\<close>, \<open>[spec]\<close>,
  \<open>:name\<close>, \<open>::name\<close>. Conversely, a sequence the builder accepts is valid and is
  rendered so.
\<close>

theorem stringify_concatenates_rendered_fragments:
  "(valid cs \<longrightarrow>
      (\<exists>b. appendAll cs new_CssSelectorBuilder = Inr b \<and>
           fst (stringify b) = concat (map (\<lambda>c. rendered (fst c) (snd c)) cs))) \<and>
   (appendAll cs new_CssSelectorBuilder = Inr b' \<longrightarrow>
      valid cs \<and> fst (stringify b') = concat (map (\<lambda>c. rendered (fst c) (snd c)) cs))"
proof (intro conjI impI)
  assume "valid cs"
  from valid_accepted [OF this] obtain b where b: "appendAll cs new_CssSelectorBuilder = Inr b" ..
  from chain_state [OF b] have "fst (stringify b) = concat (map (\<lambda>c. rendered (fst c) (snd c)) cs)"
    by (simp add: stringify_def)
  with b show "\<exists>b. appendAll cs new_CssSelectorBuilder = Inr b \<and>
      fst (stringify b) = concat (map (\<lambda>c. rendered (fst c) (snd c)) cs)"
    by blast
next
  assume a: "appendAll cs new_CssSelectorBuilder = Inr b'"
  from accepted_valid [OF a] show "valid cs" .
  from chain_state [OF a]
  show "fst (stringify b') = concat (map (\<lambda>c. rendered (fst c) (snd c)) cs)"
    by (simp add: stringify_def)
qed

theorem stringify_concatenates_rendered_fragments_witness:
  "valid [(Id, ''main''), (Class, ''container''), (Class, ''editable'')] \<and>
   appendAll [(Id, ''main''), (Class, ''container''), (Class, ''editable'')]
       new_CssSelectorBuilder =
     Inr \<lparr>previousSelector = [], cssArray = [''#main'', ''.container'', ''.editable''],
           order = 2\<rparr> \<and>
   fst (stringify \<lparr>previousSelector = [], cssArray = [''#main'', ''.container'', ''.editable''],
          order = 2\<rparr>) = ''#main.container.editable'' \<and>
   valid [(Element, ''a''), (Id, ''top''), (Class, ''ext''), (Attribute, ''href''),
          (PseudoClass, ''focus''), (PseudoElement, ''after'')] \<and>
   appendAll [(Element, ''a''), (Id, ''top''), (Class, ''ext''), (Attribute, ''href''),
          (PseudoClass, ''focus''), (PseudoElement, ''after'')] new_CssSelectorBuilder =
     Inr \<lparr>previousSelector = ''pseudoElement'',
           cssArray = [''a'', ''#top'', ''.ext'', ''[href]'', '':focus'', ''::after''],
           order = 5\<rparr> \<and>
   fst (stringify \<lparr>previousSelector = ''pseudoElement'',
          cssArray = [''a'', ''#top'', ''.ext'', ''[href]'', '':focus'', ''::after''],
          order = 5\<rparr>) = ''a#top.ext[href]:focus::after''"
proof -
  let ?cs = "[(Id, ''main''), (Class, ''container''), (Class, ''editable'')]"
  let ?b = "\<lparr>previousSelector = [], cssArray = [''#main'', ''.container'', ''.editable''],
             order = 2\<rparr>"
  let ?ds = "[(Element, ''a''), (Id, ''top''), (Class, ''ext''), (Attribute, ''href''),
              (PseudoClass, ''focus''), (PseudoElement, ''after'')]"
  let ?d = "\<lparr>previousSelector = ''pseudoElement'',
             cssArray = [''a'', ''#top'', ''.ext'', ''[href]'', '':focus'', ''::after''],
             order = 5\<rparr>"
  have v: "valid ?cs"
    by (simp add: valid_def)
  have a: "appendAll ?cs new_CssSelectorBuilder = Inr ?b"
    by (simp add: method_defs new_CssSelectorBuilder_def)
  from v a stringify_concatenates_rendered_fragments [of ?cs ?b]
  have "fst (stringify ?b) = concat (map (\<lambda>c. rendered (fst c) (snd c)) ?cs)"
    by blast
  then have s: "fst (stringify ?b) = ''#main.container.editable''"
    by simp
  have w: "valid ?ds"
    by (simp add: valid_def)
  from w stringify_concatenates_rendered_fragments [of ?ds]
  obtain d where d: "appendAll ?ds new_CssSelectorBuilder = Inr d"
    and r: "fst (stringify d) = concat (map (\<lambda>c. rendered (fst c) (snd c)) ?ds)"
    by blast
  have e: "appendAll ?ds new_CssSelectorBuilder = Inr ?d"
    by (simp add: method_defs new_CssSelectorBuilder_def)
  with d have "d = ?d"
    by simp
  with r have t: "fst (stringify ?d) = ''a#top.ext[href]:focus::after''"
    by simp
  from v a s w e t show ?thesis
    by (intro conjI)
qed

text \<open>
  Claim C4 does not hold of the code: \<open>stringify\<close> empties the array and clears
  \<open>previousSelector\<close> but leaves \<open>order\<close> as it is, where the constructor sets it to
  \<open>-1\<close>. After \<open>class('a')\<close> and \<open>stringify()\<close> the builder is not the new builder, and
  \<open>element('div')\<close>, which a new builder accepts, raises \<open>OutOfOrder\<close>.
\<close>

theorem stringify_leaves_order:
  "classSel ''a'' new_CssSelectorBuilder =
     Inr \<lparr>previousSelector = [], cssArray = [''.a''], order = 2\<rparr> \<and>
   stringify \<lparr>previousSelector = [], cssArray = [''.a''], order = 2\<rparr> =
     (''.a'', \<lparr>previousSelector = [], cssArray = [], order = 2\<rparr>) \<and>
   \<lparr>previousSelector = [], cssArray = [], order = 2\<rparr> \<noteq> new_CssSelectorBuilder \<and>
   element ''div'' \<lparr>previousSelector = [], cssArray = [], order = 2\<rparr> = Inl OutOfOrder \<and>
   element ''div'' new_CssSelectorBuilder =
     Inr \<lparr>previousSelector = ''element'', cssArray = [''div''], order = 0\<rparr>"
  by (simp add: method_defs new_CssSelectorBuilder_def stringify_def)


section \<open>The pseudo-element\<close>

text \<open>
  Claim C5, as stated, fails: no builder accepts a class fragment right after a
  pseudo-element fragment. \<open>pseudoElement\<close> has no order check of its own, but it sets
  \<open>order\<close> to 5, and \<open>class\<close> rejects every \<open>order\<close> above 2.
\<close>

theorem class_after_pseudoElement_is_out_of_order:
  "\<not> (\<exists>v b b1 w b2. pseudoElement v b = Inr b1 \<and> classSel w b1 = Inr b2) \<and>
   pseudoElement ''after'' new_CssSelectorBuilder =
     Inr \<lparr>previousSelector = ''pseudoElement'', cssArray = [''::after''], order = 5\<rparr> \<and>
   classSel ''x'' \<lparr>previousSelector = ''pseudoElement'', cssArray = [''::after''], order = 5\<rparr> =
     Inl OutOfOrder"
  by (auto simp: method_defs new_CssSelectorBuilder_def split: if_splits)

text \<open>
  Claim C5, amended. \<open>pseudoElement\<close> performs no rank-ordering check, only the
  duplicate check, so it never raises \<open>OutOfOrder\<close>. Once it has succeeded on a builder,
  a \<open>class\<close> call on that builder raises \<open>OutOfOrder\<close>, directly after it and also
  after any successful appends and combinations in between.
\<close>

theorem pseudoElement_blocks_later_class:
  "pseudoElement v b \<noteq> Inl OutOfOrder \<and>
   (pseudoElement v b = Inr b1 \<longrightarrow> performAll xs b1 = Inr b2 \<longrightarrow>
      classSel w b2 = Inl OutOfOrder)"
proof (intro conjI impI)
  show "pseudoElement v b \<noteq> Inl OutOfOrder"
    by (simp add: pseudoElement_def)
next
  assume p: "pseudoElement v b = Inr b1" and r: "performAll xs b1 = Inr b2"
  from p have "order b1 = 5"
    by (auto simp: pseudoElement_def split: if_splits)
  from performAll_keeps_5 [OF r this] show "classSel w b2 = Inl OutOfOrder"
    by (simp add: classSel_def)
qed

theorem pseudoElement_blocks_later_class_witness:
  "pseudoElement ''after'' new_CssSelectorBuilder \<noteq> Inl OutOfOrder \<and>
   pseudoElement ''after'' new_CssSelectorBuilder =
     Inr \<lparr>previousSelector = ''pseudoElement'', cssArray = [''::after''], order = 5\<rparr> \<and>
   performAll [Combine new_CssSelectorBuilder ''+'' new_CssSelectorBuilder]
       \<lparr>previousSelector = ''pseudoElement'', cssArray = [''::after''], order = 5\<rparr> =
     Inr \<lparr>previousSelector = ''pseudoElement'', cssArray = [''::after'', '' + ''],
           order = 5\<rparr> \<and>
   classSel ''x'' \<lparr>previousSelector = ''pseudoElement'', cssArray = [''::after'', '' + ''],
     order = 5\<rparr> = Inl OutOfOrder"
proof -
  let ?b1 = "\<lparr>previousSelector = ''pseudoElement'', cssArray = [''::after''], order = 5\<rparr>"
  let ?xs = "[Combine new_CssSelectorBuilder ''+'' new_CssSelectorBuilder]"
  let ?b2 = "\<lparr>previousSelector = ''pseudoElement'', cssArray = [''::after'', '' + ''],
              order = 5\<rparr>"
  have p: "pseudoElement ''after'' new_CssSelectorBuilder = Inr ?b1"
    by (simp add: pseudoElement_def new_CssSelectorBuilder_def)
  have r: "performAll ?xs ?b1 = Inr ?b2"
    by (simp add: combine_def new_CssSelectorBuilder_def)
  from pseudoElement_blocks_later_class [of "''after''" new_CssSelectorBuilder ?b1 ?xs ?b2 "''x''"]
    p r
  have "pseudoElement ''after'' new_CssSelectorBuilder \<noteq> Inl OutOfOrder"
    and "classSel ''x'' ?b2 = Inl OutOfOrder"
    by blast+
  with p r show ?thesis
    by (intro conjI)
qed


section \<open>Combining selectors\<close>

lemmas facade_defs =
  cssSelectorBuilder_element_def cssSelectorBuilder_id_def cssSelectorBuilder_class_def
  cssSelectorBuilder_attr_def cssSelectorBuilder_pseudoClass_def
  cssSelectorBuilder_pseudoElement_def

text \<open>
  Claim C6. For a receiver and two selectors that are builders, and any combinator
  string, \<open>combine\<close> raises nothing, returns the receiver, and leaves in the receiver's
  array its old fragments, then those of the left selector, then the one fragment
  \<open>" " + combinator + " "\<close>, then those of the right selector. The arguments are read as
  they are when the call starts, also when one of them is the receiver.
\<close>

theorem combine_appends_left_combinator_right:
  assumes "this < length h" and "selector1 < length h" and "selector2 < length h"
  shows "\<exists>h'. combine_at this selector1 c selector2 h = Inr (this, h') \<and>
           cssArray (h' ! this) =
             cssArray (h ! this) @ cssArray (h ! selector1) @ ['' '' @ c @ '' ''] @
             cssArray (h ! selector2) \<and>
           fst (stringify (h' ! this)) =
             fst (stringify (h ! this)) @ fst (stringify (h ! selector1)) @ '' '' @ c @ '' '' @
             fst (stringify (h ! selector2))"
  using assms by (simp add: combine_at_def combine_def stringify_def)

theorem combine_appends_left_combinator_right_witness:
  "appendAll [(Element, ''div''), (Id, ''main'')] new_CssSelectorBuilder =
     Inr \<lparr>previousSelector = ''id'', cssArray = [''div'', ''#main''], order = 1\<rparr> \<and>
   appendAll [(Element, ''table''), (Id, ''data'')] new_CssSelectorBuilder =
     Inr \<lparr>previousSelector = ''id'', cssArray = [''table'', ''#data''], order = 1\<rparr> \<and>
   combine_at 2 0 ''~'' 1
     [\<lparr>previousSelector = ''id'', cssArray = [''div'', ''#main''], order = 1\<rparr>,
      \<lparr>previousSelector = ''id'', cssArray = [''table'', ''#data''], order = 1\<rparr>,
      new_CssSelectorBuilder] =
   Inr (2,
     [\<lparr>previousSelector = ''id'', cssArray = [''div'', ''#main''], order = 1\<rparr>,
      \<lparr>previousSelector = ''id'', cssArray = [''table'', ''#data''], order = 1\<rparr>,
      \<lparr>previousSelector = [], cssArray = [''div'', ''#main'', '' ~ '', ''table'', ''#data''],
        order = - 1\<rparr>]) \<and>
   stringify_at 2
     [\<lparr>previousSelector = ''id'', cssArray = [''div'', ''#main''], order = 1\<rparr>,
      \<lparr>previousSelector = ''id'', cssArray = [''table'', ''#data''], order = 1\<rparr>,
      \<lparr>previousSelector = [], cssArray = [''div'', ''#main'', '' ~ '', ''table'', ''#data''],
        order = - 1\<rparr>] =
   Inr (''div#main ~ table#data'',
     [\<lparr>previousSelector = ''id'', cssArray = [''div'', ''#main''], order = 1\<rparr>,
      \<lparr>previousSelector = ''id'', cssArray = [''table'', ''#data''], order = 1\<rparr>,
      new_CssSelectorBuilder])"
  using combine_appends_left_combinator_right
    [of 2 "[\<lparr>previousSelector = ''id'', cssArray = [''div'', ''#main''], order = 1\<rparr>,
            \<lparr>previousSelector = ''id'', cssArray = [''table'', ''#data''], order = 1\<rparr>,
            new_CssSelectorBuilder]" 0 1 "''~''"]
  by (simp add: combine_at_def combine_def stringify_at_def stringify_def
      new_CssSelectorBuilder_def method_defs)

text \<open>
  Claim C10, as stated, fails when an argument is the receiver itself, as in
  \<open>s.combine(s, '+', s)\<close>: the receiver's array is replaced, so the argument's fragment
  sequence is not what it was before the call.
\<close>

theorem combine_with_receiver_as_argument:
  "combine_at 0 0 ''+'' 0 [\<lparr>previousSelector = ''element'', cssArray = [''a''], order = 0\<rparr>] =
     Inr (0, [\<lparr>previousSelector = ''element'', cssArray = [''a'', ''a'', '' + '', ''a''],
                order = 0\<rparr>]) \<and>
   cssArray \<lparr>previousSelector = ''element'', cssArray = [''a'', ''a'', '' + '', ''a''],
     order = 0\<rparr> \<noteq>
   cssArray \<lparr>previousSelector = ''element'', cssArray = [''a''], order = 0\<rparr>"
  by (simp add: combine_at_def combine_def)

text \<open>
  Claim C10, amended. A \<open>combine\<close> call changes no object but the receiver, and of
  the receiver only the fragment sequence: its \<open>previousSelector\<close> and \<open>order\<close> stay.
  So each selector argument that is not the receiver itself has, after the call,
  exactly the fragment sequence and the rank and duplicate tracking it had before.
\<close>

theorem combine_changes_only_receiver:
  assumes "combine_at this selector1 c selector2 h = Inr (t, h')"
  shows "length h' = length h \<and>
         (\<forall>x<length h. x \<noteq> this \<longrightarrow> h' ! x = h ! x) \<and>
         previousSelector (h' ! this) = previousSelector (h ! this) \<and>
         order (h' ! this) = order (h ! this) \<and>
         (selector1 \<noteq> this \<longrightarrow> h' ! selector1 = h ! selector1) \<and>
         (selector2 \<noteq> this \<longrightarrow> h' ! selector2 = h ! selector2)"
  using assms by (auto simp: combine_at_def combine_def split: if_splits)

theorem combine_changes_only_receiver_witness:
  "combine_at 2 0 ''+'' 1
     [\<lparr>previousSelector = ''element'', cssArray = [''div''], order = 0\<rparr>,
      \<lparr>previousSelector = ''id'', cssArray = [''#data''], order = 1\<rparr>,
      new_CssSelectorBuilder] =
   Inr (2,
     [\<lparr>previousSelector = ''element'', cssArray = [''div''], order = 0\<rparr>,
      \<lparr>previousSelector = ''id'', cssArray = [''#data''], order = 1\<rparr>,
      \<lparr>previousSelector = [], cssArray = [''div'', '' + '', ''#data''], order = - 1\<rparr>]) \<and>
   [\<lparr>previousSelector = ''element'', cssArray = [''div''], order = 0\<rparr>,
    \<lparr>previousSelector = ''id'', cssArray = [''#data''], order = 1\<rparr>,
    \<lparr>previousSelector = [], cssArray = [''div'', '' + '', ''#data''], order = - 1\<rparr>] ! 0 =
   [\<lparr>previousSelector = ''element'', cssArray = [''div''], order = 0\<rparr>,
    \<lparr>previousSelector = ''id'', cssArray = [''#data''], order = 1\<rparr>,
    new_CssSelectorBuilder] ! 0 \<and>
   [\<lparr>previousSelector = ''element'', cssArray = [''div''], order = 0\<rparr>,
    \<lparr>previousSelector = ''id'', cssArray = [''#data''], order = 1\<rparr>,
    \<lparr>previousSelector = [], cssArray = [''div'', '' + '', ''#data''], order = - 1\<rparr>] ! 1 =
   [\<lparr>previousSelector = ''element'', cssArray = [''div''], order = 0\<rparr>,
    \<lparr>previousSelector = ''id'', cssArray = [''#data''], order = 1\<rparr>,
    new_CssSelectorBuilder] ! 1"
proof -
  let ?d = "\<lparr>previousSelector = ''element'', cssArray = [''div''], order = 0\<rparr>"
  let ?i = "\<lparr>previousSelector = ''id'', cssArray = [''#data''], order = 1\<rparr>"
  let ?c = "\<lparr>previousSelector = [], cssArray = [''div'', '' + '', ''#data''], order = - 1\<rparr>"
  have a: "combine_at 2 0 ''+'' 1 [?d, ?i, new_CssSelectorBuilder] = Inr (2, [?d, ?i, ?c])"
    by (simp add: combine_at_def combine_def new_CssSelectorBuilder_def)
  have "(0::nat) \<noteq> 2" and "(1::nat) \<noteq> 2"
    by simp_all
  with combine_changes_only_receiver [OF a]
  have "[?d, ?i, ?c] ! 0 = [?d, ?i, new_CssSelectorBuilder] ! 0"
    and "[?d, ?i, ?c] ! 1 = [?d, ?i, new_CssSelectorBuilder] ! 1"
    by blast+
  with a show ?thesis
    by (intro conjI)
qed


section \<open>The facade\<close>

lemma facade_invoke:
  "m new_CssSelectorBuilder = Inr b \<Longrightarrow> facade (invoke m) h = Inr (length h, h @ [b])"
  by (simp add: facade_def new_at_def invoke_def nth_append)

text \<open>A new builder accepts each of the six appends.\<close>

lemma append_new: "\<exists>b. appendFragment k v new_CssSelectorBuilder = Inr b"
  by (cases k) (simp_all add: method_defs new_CssSelectorBuilder_def)

lemma facade_append:
  "appendFragment k v new_CssSelectorBuilder = Inr b \<Longrightarrow>
     cssSelectorBuilder_append k v h = Inr (length h, h @ [b])"
  by (cases k) (simp_all add: facade_defs facade_invoke)

lemma facade_combine:
  "selector1 < length h \<Longrightarrow> selector2 < length h \<Longrightarrow>
     cssSelectorBuilder_combine selector1 c selector2 h =
       Inr (length h, h @ [combine (h ! selector1) c (h ! selector2) new_CssSelectorBuilder])"
  by (simp add: cssSelectorBuilder_combine_def facade_def new_at_def combine_at_def nth_append)

lemma invoke_frame:
  "invoke m this h = Inr (t, h') \<Longrightarrow> x \<noteq> this \<Longrightarrow> h' ! x = h ! x"
  by (auto simp: invoke_def split: if_splits sum.splits)

text \<open>
  Claim C7. Each of the six appending entry points never fails: it returns a reference
  to an object that did not exist before, holding what the same method makes of a new
  empty builder, and leaves every existing object as it was. The \<open>combine\<close> entry
  point does the same with \<open>combine\<close>, given two selectors that are builders. Two
  chains started through the facade are different objects; starting the second leaves
  the first as it was, and so does a later method call on the second.
\<close>

theorem facade_creates_fresh_chain:
  "(\<exists>b. appendFragment k v new_CssSelectorBuilder = Inr b \<and>
        cssSelectorBuilder_append k v h = Inr (length h, h @ [b])) \<and>
   (selector1 < length h \<and> selector2 < length h \<longrightarrow>
      cssSelectorBuilder_combine selector1 c selector2 h =
        Inr (length h, h @ [combine (h ! selector1) c (h ! selector2) new_CssSelectorBuilder])) \<and>
   (cssSelectorBuilder_append k v h = Inr (r1, h1) \<longrightarrow>
    cssSelectorBuilder_append k' v' h1 = Inr (r2, h2) \<longrightarrow>
      r1 \<noteq> r2 \<and> r1 < length h2 \<and> r2 < length h2 \<and> take (length h) h2 = h \<and>
      h2 ! r1 = h1 ! r1 \<and>
      (invoke m r2 h2 = Inr (t, h3) \<longrightarrow> h3 ! r1 = h2 ! r1))"
proof (intro conjI impI)
  from append_new [of k v] facade_append [of k v _ h]
  show "\<exists>b. appendFragment k v new_CssSelectorBuilder = Inr b \<and>
        cssSelectorBuilder_append k v h = Inr (length h, h @ [b])"
    by blast
next
  assume "selector1 < length h \<and> selector2 < length h"
  then show "cssSelectorBuilder_combine selector1 c selector2 h =
        Inr (length h, h @ [combine (h ! selector1) c (h ! selector2) new_CssSelectorBuilder])"
    by (simp add: facade_combine)
next
  assume a1: "cssSelectorBuilder_append k v h = Inr (r1, h1)"
    and a2: "cssSelectorBuilder_append k' v' h1 = Inr (r2, h2)"
  from append_new [of k v] obtain b where
    b: "appendFragment k v new_CssSelectorBuilder = Inr b" ..
  from append_new [of k' v'] obtain b' where
    b': "appendFragment k' v' new_CssSelectorBuilder = Inr b'" ..
  from facade_append [OF b, of h] a1 have 1: "r1 = length h" "h1 = h @ [b]"
    by simp_all
  from facade_append [OF b', of h1] a2 have 2: "r2 = length h1" "h2 = h1 @ [b']"
    by simp_all
  from 1 2 show "r1 \<noteq> r2" "r1 < length h2" "r2 < length h2" "take (length h) h2 = h"
    "h2 ! r1 = h1 ! r1"
    by (simp_all add: nth_append)
  assume a3: "invoke m r2 h2 = Inr (t, h3)"
  from 1 2 have "r1 \<noteq> r2"
    by simp
  with invoke_frame [OF a3] show "h3 ! r1 = h2 ! r1"
    by simp
qed

theorem facade_creates_fresh_chain_witness:
  "cssSelectorBuilder_append Element ''div'' [] =
     Inr (0, [\<lparr>previousSelector = ''element'', cssArray = [''div''], order = 0\<rparr>]) \<and>
   cssSelectorBuilder_append Id ''data''
       [\<lparr>previousSelector = ''element'', cssArray = [''div''], order = 0\<rparr>] =
     Inr (1, [\<lparr>previousSelector = ''element'', cssArray = [''div''], order = 0\<rparr>,
              \<lparr>previousSelector = ''id'', cssArray = [''#data''], order = 1\<rparr>]) \<and>
   cssSelectorBuilder_combine 0 ''+'' 1
       [\<lparr>previousSelector = ''element'', cssArray = [''div''], order = 0\<rparr>,
        \<lparr>previousSelector = ''id'', cssArray = [''#data''], order = 1\<rparr>] =
     Inr (2, [\<lparr>previousSelector = ''element'', cssArray = [''div''], order = 0\<rparr>,
              \<lparr>previousSelector = ''id'', cssArray = [''#data''], order = 1\<rparr>,
              \<lparr>previousSelector = [], cssArray = [''div'', '' + '', ''#data''], order = - 1\<rparr>]) \<and>
   invoke (classSel ''wide'') 1
       [\<lparr>previousSelector = ''element'', cssArray = [''div''], order = 0\<rparr>,
        \<lparr>previousSelector = ''id'', cssArray = [''#data''], order = 1\<rparr>] =
     Inr (1, [\<lparr>previousSelector = ''element'', cssArray = [''div''], order = 0\<rparr>,
              \<lparr>previousSelector = [], cssArray = [''#data'', ''.wide''], order = 2\<rparr>]) \<and>
   [\<lparr>previousSelector = ''element'', cssArray = [''div''], order = 0\<rparr>,
    \<lparr>previousSelector = [], cssArray = [''#data'', ''.wide''], order = 2\<rparr>] ! 0 =
   [\<lparr>previousSelector = ''element'', cssArray = [''div''], order = 0\<rparr>,
    \<lparr>previousSelector = ''id'', cssArray = [''#data''], order = 1\<rparr>] ! 0"
proof -
  let ?d = "\<lparr>previousSelector = ''element'', cssArray = [''div''], order = 0\<rparr>"
  let ?i = "\<lparr>previousSelector = ''id'', cssArray = [''#data''], order = 1\<rparr>"
  let ?w = "\<lparr>previousSelector = [], cssArray = [''#data'', ''.wide''], order = 2\<rparr>"
  have a: "cssSelectorBuilder_append Element ''div'' [] = Inr (0, [?d])"
    by (simp add: cssSelectorBuilder_element_def facade_def new_at_def invoke_def element_def
        new_CssSelectorBuilder_def)
  have b: "cssSelectorBuilder_append Id ''data'' [?d] = Inr (1, [?d, ?i])"
    by (simp add: cssSelectorBuilder_id_def facade_def new_at_def invoke_def idSel_def
        new_CssSelectorBuilder_def)
  have c: "invoke (classSel ''wide'') 1 [?d, ?i] = Inr (1, [?d, ?w])"
    by (simp add: invoke_def classSel_def)
  have v: "0 < length [?d, ?i] \<and> 1 < length [?d, ?i]"
    by simp
  from a b c
    facade_creates_fresh_chain [of Element "''div''" "[]" 0 1 "''+''" 0 "[?d]" Id "''data''" 1
      "[?d, ?i]" "classSel ''wide''" 1 "[?d, ?w]"]
  have frame: "[?d, ?w] ! 0 = [?d, ?i] ! 0"
    by blast
  from v facade_creates_fresh_chain [of Id "''data''" "[?d, ?i]" 0 1 "''+''"]
  have "cssSelectorBuilder_combine 0 ''+'' 1 [?d, ?i] =
      Inr (length [?d, ?i],
        [?d, ?i] @ [combine ([?d, ?i] ! 0) ''+'' ([?d, ?i] ! 1) new_CssSelectorBuilder])"
    by blast
  then have d: "cssSelectorBuilder_combine 0 ''+'' 1 [?d, ?i] =
      Inr (2, [?d, ?i,
        \<lparr>previousSelector = [], cssArray = [''div'', '' + '', ''#data''], order = - 1\<rparr>])"
    by (simp add: combine_def new_CssSelectorBuilder_def)
  from a b c d frame show ?thesis
    by (intro conjI)
qed


section \<open>The rectangle's area\<close>

lemma Rectangle_examples:
  "getArea (Rectangle (10::int) 20) () = 200" "getArea (Rectangle (0::int) 5) () = 0"
  by (simp_all add: Rectangle_def)

text \<open>
  Claim C8, as stated, fails: \<open>getArea\<close> multiplies the constructor's arguments, not
  the object's fields, so it does not follow a later assignment to \<open>width\<close>. After
  \<open>r = Rectangle(10, 20); r.width = 5\<close> the fields multiply to 100 and \<open>r.getArea()\<close>
  is still 200.
\<close>

theorem getArea_ignores_field_update:
  "getArea ((Rectangle (10::int) 20)\<lparr>width := 5\<rparr>) () = 200 \<and>
   width ((Rectangle (10::int) 20)\<lparr>width := 5\<rparr>) *
     height ((Rectangle (10::int) 20)\<lparr>width := 5\<rparr>) = 100 \<and>
   getArea ((Rectangle (10::int) 20)\<lparr>width := 5\<rparr>) () \<noteq>
     width ((Rectangle (10::int) 20)\<lparr>width := 5\<rparr>) *
       height ((Rectangle (10::int) 20)\<lparr>width := 5\<rparr>)"
  by (simp add: Rectangle_def)

text \<open>
  Claim C8, amended. \<open>Rectangle(width, height)\<close> returns an object whose \<open>width\<close> and
  \<open>height\<close> fields equal the arguments and whose \<open>getArea\<close> method returns the product
  of the two arguments, computed on each call from the arguments; the result stays the
  product of the arguments whatever is later assigned to the object's fields.
\<close>

theorem getArea_is_product_of_arguments:
  "width (Rectangle w h) = w \<and> height (Rectangle w h) = h \<and>
   getArea (Rectangle w h) () = w * h \<and>
   getArea ((Rectangle w h)\<lparr>width := w', height := h'\<rparr>) () = w * h"
  by (simp add: Rectangle_def)


section \<open>The serialisation round trip\<close>

subsection \<open>Reading back what was written\<close>




















lemma follow_simps [simp]:
  "follow []" "follow (CHR '','' # r)" "follow (CHR '']'' # r)" "follow (CHR ''}'' # r)"
  by (simp_all add: follow_def)

lemma skip_ws_Cons: "\<not> is_ws c \<Longrightarrow> skip_ws (c # cs) = c # cs"
  by (simp add: skip_ws_def)

lemma skip_ws_Nil [simp]: "skip_ws [] = []"
  by (simp add: skip_ws_def)

lemma skip_ws_punct [simp]:
  "skip_ws (CHR '','' # r) = CHR '','' # r"
  "skip_ws (CHR '']'' # r) = CHR '']'' # r"
  "skip_ws (CHR ''}'' # r) = CHR ''}'' # r"
  "skip_ws (CHR '':'' # r) = CHR '':'' # r"
  "skip_ws (CHR 0x22 # r) = CHR 0x22 # r"
  by (simp_all add: skip_ws_def is_ws_def)

lemma skip_ws_follow: "follow r \<Longrightarrow> skip_ws r = r"
  by (auto simp: follow_def split: list.splits)
















subsection \<open>The parser's budget\<close>

text \<open>
  Every successful step of the parser consumes input, and the budget \<open>JSON.parse\<close>
  starts with, twice the length of the text and one, is never used up: no text makes
  \<open>JSON_parse\<close> or \<open>fromJSON\<close> end in \<open>OutOfFuel\<close>.
\<close>

lemma skip_ws_length: "length (skip_ws s) \<le> length s"
  by (simp add: skip_ws_def length_dropWhile_le)

lemma skip_ws_Cons_length: "skip_ws s = c # cs \<Longrightarrow> length cs < length s"
  using skip_ws_length [of s] by simp

lemma parse_literal_length:
  "parse_literal w v s = Inr (x, r) \<Longrightarrow> w \<noteq> [] \<Longrightarrow> length r < length s"
  by (cases s) (auto simp: parse_literal_def split: if_splits)

lemma parse_string_chars_length:
  "parse_string_chars s = Inr (str, r) \<Longrightarrow> length r < length s"
proof (induction s arbitrary: str r rule: parse_string_chars.induct)
  case 1
  then show ?case by simp
next
  case (2 c cs)
  show ?case
  proof (cases "c = CHR 0x22")
    case True
    with 2(4) show ?thesis by simp
  next
    case nq: False
    show ?thesis
    proof (cases "c = CHR 0x5C")
      case False
      with nq 2(3) 2(4) show ?thesis
        by (fastforce split: if_splits sum.splits)
    next
      case True
      with nq 2(1) 2(2) 2(4) show ?thesis
        by (fastforce split: if_splits sum.splits list.splits option.splits)
    qed
  qed
qed

lemma parse_digits_length: "parse_digits acc s = (n, r) \<Longrightarrow> length r \<le> length s"
  by (induction s arbitrary: acc) (fastforce split: option.splits)+

lemma parse_unsigned_length: "parse_unsigned s = Inr (n, r) \<Longrightarrow> length r < length s"
  by (cases s)
    (auto simp: parse_unsigned_def split: option.splits if_splits list.splits prod.splits
      dest!: parse_digits_length)

lemma parse_number_length: "parse_number s = Inr (v, r) \<Longrightarrow> length r < length s"
  by (cases s)
    (auto simp: parse_number_def split: if_splits sum.splits dest!: parse_unsigned_length)

lemma unicode_escape_fuel: "unicode_escape a b c d \<noteq> Inl OutOfFuel"
  by (simp add: unicode_escape_def split: option.splits)

lemma parse_string_chars_fuel: "parse_string_chars s \<noteq> Inl OutOfFuel"
proof (induction s rule: parse_string_chars.induct)
  case 1
  show ?case by simp
next
  case (2 c cs)
  show ?case
  proof (cases "c = CHR 0x22")
    case True
    then show ?thesis by simp
  next
    case nq: False
    show ?thesis
    proof (cases "c = CHR 0x5C")
      case False
      with nq 2(3) show ?thesis
        by (auto split: sum.splits)
    next
      case bs: True
      show ?thesis
      proof (cases cs)
        case Nil
        with nq bs show ?thesis by simp
      next
        case (Cons e cs1)
        show ?thesis
        proof (cases "e = CHR ''u''")
          case False
          with nq bs Cons 2(2) [OF nq bs Cons False] show ?thesis
            by (auto split: sum.splits option.splits)
        next
          case True
          with nq bs Cons 2(1) [OF nq bs Cons True] unicode_escape_fuel show ?thesis
            by (auto split: sum.splits list.splits) blast
        qed
      qed
    qed
  qed
qed

lemma parse_unsigned_fuel: "parse_unsigned s \<noteq> Inl OutOfFuel"
  by (simp add: parse_unsigned_def split: list.splits option.splits prod.splits)

lemma parse_number_fuel: "parse_number s \<noteq> Inl OutOfFuel"
  using parse_unsigned_fuel
  by (auto simp: parse_number_def split: list.splits sum.splits)

lemma parse_literal_fuel: "parse_literal w x s \<noteq> Inl OutOfFuel"
  by (simp add: parse_literal_def)

lemma parse_consumes:
  "(\<forall>s v r. parse_value n s = Inr (v, r) \<longrightarrow> length r < length s) \<and>
   (\<forall>s vs r. parse_elements n s = Inr (vs, r) \<longrightarrow> length r < length s) \<and>
   (\<forall>s ps r. parse_members n s = Inr (ps, r) \<longrightarrow> length r < length s)"
proof (induction n)
  case 0
  show ?case by simp
next
  case (Suc n)
  from Suc have v: "\<And>s v r. parse_value n s = Inr (v, r) \<Longrightarrow> length r < length s"
    and e: "\<And>s vs r. parse_elements n s = Inr (vs, r) \<Longrightarrow> length r < length s"
    and m: "\<And>s ps r. parse_members n s = Inr (ps, r) \<Longrightarrow> length r < length s"
    by blast+
  have 1: "length r < length s" if h: "parse_value (Suc n) s = Inr (v, r)" for s v r
  proof (cases "skip_ws s")
    case Nil
    with h show ?thesis by simp
  next
    case (Cons c cs)
    note len = skip_ws_Cons_length [OF Cons]
    from h Cons have h': "(if c = CHR ''n'' then parse_literal ''null'' JNull (c # cs)
         else if c = CHR ''t'' then parse_literal ''true'' (JBool True) (c # cs)
         else if c = CHR ''f'' then parse_literal ''false'' (JBool False) (c # cs)
         else if c = CHR 0x22 then
           (case parse_string_chars cs of
              Inl e \<Rightarrow> Inl e
            | Inr (str, r) \<Rightarrow> Inr (JString str, r))
         else if c = CHR ''['' then
           (case skip_ws cs of
              [] \<Rightarrow> Inl SyntaxError
            | x # r \<Rightarrow>
               if x = CHR '']'' then Inr (JArray [], r)
               else (case parse_elements n cs of
                       Inl e \<Rightarrow> Inl e
                     | Inr (vs, r') \<Rightarrow> Inr (JArray vs, r')))
         else if c = CHR ''{'' then
           (case skip_ws cs of
              [] \<Rightarrow> Inl SyntaxError
            | x # r \<Rightarrow>
               if x = CHR ''}'' then Inr (JObject [], r)
               else (case parse_members n cs of
                       Inl e \<Rightarrow> Inl e
                     | Inr (ps, r') \<Rightarrow> Inr (JObject (foldl CreateDataProperty [] ps), r')))
         else if c = CHR ''-'' \<or> digit_val c \<noteq> None then parse_number (c # cs)
         else Inl SyntaxError) = Inr (v, r)"
      by simp
    have "length r \<le> length cs"
    proof (cases "c = CHR ''n'' \<or> c = CHR ''t'' \<or> c = CHR ''f''")
      case True
      with h' obtain w x where "parse_literal w x (c # cs) = Inr (v, r)" "w \<noteq> []"
        by (auto split: if_splits)
      from parse_literal_length [OF this] show ?thesis by simp
    next
      case lit: False
      show ?thesis
      proof (cases "c = CHR 0x22")
        case True
        with lit h' obtain str where "parse_string_chars cs = Inr (str, r)"
          by (auto split: sum.splits)
        from parse_string_chars_length [OF this] show ?thesis by simp
      next
        case q: False
        show ?thesis
        proof (cases "c = CHR ''[''")
          case True
          with lit q h' obtain x r0 where x: "skip_ws cs = x # r0"
            and d: "(x = CHR '']'' \<and> r = r0) \<or> (\<exists>vs. parse_elements n cs = Inr (vs, r))"
            by (auto split: list.splits if_splits sum.splits)
          from d show ?thesis
          proof
            assume "x = CHR '']'' \<and> r = r0"
            with skip_ws_Cons_length [OF x] show ?thesis by simp
          next
            assume "\<exists>vs. parse_elements n cs = Inr (vs, r)"
            then obtain vs where "parse_elements n cs = Inr (vs, r)" ..
            from e [OF this] show ?thesis by simp
          qed
        next
          case a: False
          show ?thesis
          proof (cases "c = CHR ''{''")
            case True
            with lit q a h' obtain x r0 where x: "skip_ws cs = x # r0"
              and d: "(x = CHR ''}'' \<and> r = r0) \<or> (\<exists>ps. parse_members n cs = Inr (ps, r))"
              by (auto split: list.splits if_splits sum.splits)
            from d show ?thesis
            proof
              assume "x = CHR ''}'' \<and> r = r0"
              with skip_ws_Cons_length [OF x] show ?thesis by simp
            next
              assume "\<exists>ps. parse_members n cs = Inr (ps, r)"
              then obtain ps where "parse_members n cs = Inr (ps, r)" ..
              from m [OF this] show ?thesis by simp
            qed
          next
            case False
            with lit q a h' have "parse_number (c # cs) = Inr (v, r)"
              by (auto split: if_splits)
            from parse_number_length [OF this] show ?thesis by simp
          qed
        qed
      qed
    qed
    with len show ?thesis by simp
  qed
  have 2: "length r < length s" if h: "parse_elements (Suc n) s = Inr (vs, r)" for s vs r
  proof -
    from h obtain x r0 where p: "parse_value n s = Inr (x, r0)"
      by (auto split: sum.splits)
    with h obtain y r1 where k: "skip_ws r0 = y # r1"
      and d: "r = r1 \<or> (\<exists>ws. parse_elements n r1 = Inr (ws, r))"
      by (auto split: list.splits if_splits sum.splits)
    from d have "length r \<le> length r1"
    proof
      assume "r = r1"
      then show ?thesis by simp
    next
      assume "\<exists>ws. parse_elements n r1 = Inr (ws, r)"
      then obtain ws where "parse_elements n r1 = Inr (ws, r)" ..
      from e [OF this] show ?thesis by simp
    qed
    with v [OF p] skip_ws_Cons_length [OF k] show ?thesis by simp
  qed
  have 3: "length r < length s" if h: "parse_members (Suc n) s = Inr (ps, r)" for s ps r
  proof -
    from h obtain q cs where s0: "skip_ws s = q # cs"
      by (auto split: list.splits)
    with h obtain k r0 where s1: "parse_string_chars cs = Inr (k, r0)"
      by (auto split: if_splits sum.splits)
    with h s0 obtain y r1 where s2: "skip_ws r0 = y # r1"
      by (auto split: if_splits list.splits)
    with h s0 s1 obtain x r2 where s3: "parse_value n r1 = Inr (x, r2)"
      by (auto split: if_splits sum.splits)
    with h s0 s1 s2 obtain z r3 where s4: "skip_ws r2 = z # r3"
      and d: "r = r3 \<or> (\<exists>qs. parse_members n r3 = Inr (qs, r))"
      by (auto split: if_splits list.splits sum.splits)
    from d have "length r \<le> length r3"
    proof
      assume "r = r3"
      then show ?thesis by simp
    next
      assume "\<exists>qs. parse_members n r3 = Inr (qs, r)"
      then obtain qs where "parse_members n r3 = Inr (qs, r)" ..
      from m [OF this] show ?thesis by simp
    qed
    with skip_ws_Cons_length [OF s0] parse_string_chars_length [OF s1]
      skip_ws_Cons_length [OF s2] v [OF s3] skip_ws_Cons_length [OF s4]
    show ?thesis by simp
  qed
  from 1 2 3 show ?case by blast
qed

lemma parse_fuel:
  "(\<forall>s. 2 * length s + 1 \<le> n \<longrightarrow> parse_value n s \<noteq> Inl OutOfFuel) \<and>
   (\<forall>s. 2 * length s + 2 \<le> n \<longrightarrow> parse_elements n s \<noteq> Inl OutOfFuel) \<and>
   (\<forall>s. 2 * length s + 2 \<le> n \<longrightarrow> parse_members n s \<noteq> Inl OutOfFuel)"
proof (induction n)
  case 0
  show ?case by simp
next
  case (Suc n)
  from Suc have v: "\<And>s. 2 * length s + 1 \<le> n \<Longrightarrow> parse_value n s \<noteq> Inl OutOfFuel"
    and e: "\<And>s. 2 * length s + 2 \<le> n \<Longrightarrow> parse_elements n s \<noteq> Inl OutOfFuel"
    and m: "\<And>s. 2 * length s + 2 \<le> n \<Longrightarrow> parse_members n s \<noteq> Inl OutOfFuel"
    by blast+
  note c = parse_consumes [of n, THEN conjunct1, rule_format]
  have 1: "parse_value (Suc n) s \<noteq> Inl OutOfFuel" if h: "2 * length s + 1 \<le> Suc n" for s
  proof (cases "skip_ws s")
    case Nil
    then show ?thesis by simp
  next
    case (Cons c cs)
    from skip_ws_Cons_length [OF Cons] h have "2 * length cs + 2 \<le> n" by simp
    note ef = e [OF this] and mf = m [OF this]
    show ?thesis
    proof (cases "c = CHR ''n'' \<or> c = CHR ''t'' \<or> c = CHR ''f''")
      case True
      with Cons parse_literal_fuel show ?thesis by auto
    next
      case lit: False
      show ?thesis
      proof (cases "c = CHR 0x22")
        case True
        with Cons parse_string_chars_fuel [of cs] show ?thesis
          by (auto split: sum.splits)
      next
        case q: False
        show ?thesis
        proof (cases "c = CHR ''[''")
          case True
          with Cons ef show ?thesis
            by (auto split: sum.splits list.splits)
        next
          case a: False
          show ?thesis
          proof (cases "c = CHR ''{''")
            case True
            with Cons mf show ?thesis
              by (auto split: sum.splits list.splits)
          next
            case False
            with Cons lit q a parse_number_fuel [of "c # cs"] show ?thesis
              by auto
          qed
        qed
      qed
    qed
  qed
  have 2: "parse_elements (Suc n) s \<noteq> Inl OutOfFuel" if h: "2 * length s + 2 \<le> Suc n" for s
  proof (cases "parse_value n s")
    case (Inl err)
    from h have "2 * length s + 1 \<le> n" by simp
    from v [OF this] Inl show ?thesis by auto
  next
    case (Inr vr)
    obtain x r where vr: "vr = (x, r)" by (cases vr)
    from c [of s x r] Inr vr have lr: "length r < length s" by simp
    show ?thesis
    proof (cases "skip_ws r")
      case Nil
      with Inr vr show ?thesis by simp
    next
      case (Cons y r')
      from skip_ws_Cons_length [OF Cons] lr h have "2 * length r' + 2 \<le> n" by simp
      from e [OF this] Inr vr Cons show ?thesis
        by (auto split: sum.splits)
    qed
  qed
  have 3: "parse_members (Suc n) s \<noteq> Inl OutOfFuel" if h: "2 * length s + 2 \<le> Suc n" for s
  proof (cases "skip_ws s")
    case Nil
    then show ?thesis by simp
  next
    case (Cons q cs)
    note l0 = skip_ws_Cons_length [OF Cons]
    show ?thesis
    proof (cases "parse_string_chars cs")
      case (Inl err)
      with Cons parse_string_chars_fuel [of cs] show ?thesis by auto
    next
      case (Inr kr)
      obtain k r where kr: "kr = (k, r)" by (cases kr)
      from parse_string_chars_length [of cs k r] Inr kr have l1: "length r < length cs" by simp
      show ?thesis
      proof (cases "skip_ws r")
        case Nil
        with Cons Inr kr show ?thesis by simp
      next
        case c2: (Cons y r1)
        note l2 = skip_ws_Cons_length [OF c2]
        show ?thesis
        proof (cases "parse_value n r1")
          case i: (Inl err)
          from l0 l1 l2 h have "2 * length r1 + 1 \<le> n" by simp
          from v [OF this] i Cons Inr kr c2 show ?thesis by auto
        next
          case i: (Inr vr)
          obtain x r2 where vr: "vr = (x, r2)" by (cases vr)
          from c [of r1 x r2] i vr have l3: "length r2 < length r1" by simp
          show ?thesis
          proof (cases "skip_ws r2")
            case Nil
            with Cons Inr kr c2 i vr show ?thesis by simp
          next
            case c3: (Cons z r3)
            from skip_ws_Cons_length [OF c3] l0 l1 l2 l3 h have "2 * length r3 + 2 \<le> n" by simp
            from m [OF this] Cons Inr kr c2 i vr c3 show ?thesis
              by (auto split: sum.splits)
          qed
        qed
      qed
    qed
  qed
  from 1 2 3 show ?case by blast
qed

lemma JSON_parse_fuel: "JSON_parse input \<noteq> Inl OutOfFuel"
proof -
  have "parse_value (2 * length input + 1) input \<noteq> Inl OutOfFuel"
    using parse_fuel [of "2 * length input + 1"] by blast
  then show ?thesis
    by (auto simp: JSON_parse_def simp del: parse_value.simps split: sum.splits)
qed

lemma fromJSON_fuel: "fromJSON proto input \<noteq> Inl OutOfFuel"
proof (cases "JSON_parse input")
  case (Inl err)
  with JSON_parse_fuel [of input] show ?thesis
    by (auto simp: fromJSON_def)
next
  case (Inr x)
  then show ?thesis
    by (cases x) (auto simp: fromJSON_def)
qed






end
